theory Spec2Isabelle
  imports Main "HOL-Library.Word" "HOL-Library.Multiset"
begin

unbundle bit_operations_syntax

section \<open>Data model of demo/main.cpp\<close>

text \<open>
  The demo driver compares and hashes vertices by their raw bytes only (\<open>memcmp\<close>,
  \<open>hashRange\<close>); no floating-point operation takes part in the mesh oracle. A \<open>float\<close>
  field is therefore modelled by its 32-bit pattern, and the memory image of a vertex is the
  concatenation of the eight fields, each laid out least significant byte first (the layout
  of the little-endian hosts the demo is built for). \<open>unsigned int\<close> is a 32-bit word,
  \<open>size_t\<close> a 64-bit word.
\<close>

type_synonym u8 = "8 word"
type_synonym u32 = "32 word"
type_synonym size_t = "64 word"

record Vertex =
  px :: u32
  py :: u32
  pz :: u32
  nx :: u32
  ny :: u32
  nz :: u32
  tx :: u32
  ty :: u32

record Mesh =
  vertices :: "Vertex list"
  indices :: "u32 list"

text \<open>\<open>union Triangle { Vertex v[3]; char data[sizeof(Vertex) * 3]; }\<close>: the three
  vertices, and the same storage seen as bytes (\<open>triangle_data\<close>).\<close>

record Triangle =
  v0 :: Vertex
  v1 :: Vertex
  v2 :: Vertex

definition sizeof_Vertex :: nat where
  "sizeof_Vertex = 32"

definition word_bytes :: "u32 \<Rightarrow> u8 list" where
  "word_bytes w = [ucast w, ucast (drop_bit 8 w), ucast (drop_bit 16 w), ucast (drop_bit 24 w)]"

definition vertex_data :: "Vertex \<Rightarrow> u8 list" where
  "vertex_data v =
     word_bytes (px v) @ word_bytes (py v) @ word_bytes (pz v) @
     word_bytes (nx v) @ word_bytes (ny v) @ word_bytes (nz v) @
     word_bytes (tx v) @ word_bytes (ty v)"

definition triangle_data :: "Triangle \<Rightarrow> u8 list" where
  "triangle_data t = vertex_data (v0 t) @ vertex_data (v1 t) @ vertex_data (v2 t)"

section \<open>rotateTriangle\<close>

text \<open>\<open>memcmp a b n\<close> compares the first \<open>n\<close> bytes as unsigned chars and returns the
  difference of the first pair that differs, 0 when there is none. The program calls it on
  vertex images only, which hold \<open>sizeof_Vertex\<close> bytes each; only the sign of the result
  is ever inspected.\<close>

fun memcmp :: "u8 list \<Rightarrow> u8 list \<Rightarrow> nat \<Rightarrow> int" where
  "memcmp (a # as) (b # bs) (Suc n) =
     (if a = b then memcmp as bs n else int (unat a) - int (unat b))"
| "memcmp _ _ _ = 0"

text \<open>The triangle is rotated in place; the model returns the rotated triangle together
  with the function's result. The three comparisons are taken before any rotation.\<close>

definition rotateTriangle :: "Triangle \<Rightarrow> Triangle \<times> bool" where
  "rotateTriangle t =
     (let c01 = memcmp (vertex_data (v0 t)) (vertex_data (v1 t)) sizeof_Vertex;
          c02 = memcmp (vertex_data (v0 t)) (vertex_data (v2 t)) sizeof_Vertex;
          c12 = memcmp (vertex_data (v1 t)) (vertex_data (v2 t)) sizeof_Vertex;
          t' = (if c12 < 0 \<and> c01 > 0
                then \<lparr>v0 = v1 t, v1 = v2 t, v2 = v0 t\<rparr>
                else if c02 > 0 \<and> c12 > 0
                then \<lparr>v0 = v2 t, v1 = v0 t, v2 = v1 t\<rparr>
                else t)
      in (t', c01 \<noteq> 0 \<and> c02 \<noteq> 0 \<and> c12 \<noteq> 0))"

section \<open>hashRange\<close>

text \<open>The loop of \<open>hashRange\<close>: \<open>key\<close> is the memory from the pointer on, \<open>len\<close> the
  remaining length, \<open>h\<close> the running hash. Reading four bytes where fewer are left is an
  out-of-bounds read, the result \<open>None\<close>.\<close>

definition hash_m :: u32 where
  "hash_m = 0x5bd1e995"

definition hash_r :: nat where
  "hash_r = 24"

definition read_u32 :: "u8 \<Rightarrow> u8 \<Rightarrow> u8 \<Rightarrow> u8 \<Rightarrow> u32" where
  "read_u32 b0 b1 b2 b3 =
     ucast b0 OR push_bit 8 (ucast b1) OR push_bit 16 (ucast b2) OR push_bit 24 (ucast b3)"

definition mix :: "u32 \<Rightarrow> u32 \<Rightarrow> u32" where
  "mix h k0 =
     (let k1 = k0 * hash_m;
          k2 = k1 XOR drop_bit hash_r k1;
          k3 = k2 * hash_m;
          h1 = h * hash_m
      in h1 XOR k3)"

fun hashRange_loop :: "u8 list \<Rightarrow> nat \<Rightarrow> u32 \<Rightarrow> u32 option" where
  "hashRange_loop key len h =
     (if len \<ge> 4 then
        (case key of
           b0 # b1 # b2 # b3 # rest \<Rightarrow> hashRange_loop rest (len - 4) (mix h (read_u32 b0 b1 b2 b3))
         | _ \<Rightarrow> None)
      else Some h)"

definition hashRange :: "u8 list \<Rightarrow> nat \<Rightarrow> u32 option" where
  "hashRange key len = hashRange_loop key len 0"

section \<open>hashMesh\<close>

text \<open>One iteration of the loop of \<open>hashMesh\<close> at triangle \<open>i\<close>, on the accumulators
  \<open>(h1, h2)\<close>. The three index reads are inside the index buffer for every \<open>i\<close> the loop
  reaches; a vertex read is inside the vertex buffer only when the index is below the vertex
  count, and \<open>hashMesh\<close> does not check it: the out-of-bounds read is \<open>None\<close>.\<close>

definition hashMesh_body :: "Mesh \<Rightarrow> nat \<Rightarrow> u32 \<times> u32 \<Rightarrow> (u32 \<times> u32) option" where
  "hashMesh_body mesh i h =
     (let i0 = unat (indices mesh ! (i * 3 + 0));
          i1 = unat (indices mesh ! (i * 3 + 1));
          i2 = unat (indices mesh ! (i * 3 + 2))
      in if i0 < length (vertices mesh) \<and> i1 < length (vertices mesh) \<and> i2 < length (vertices mesh)
         then
           (let t = \<lparr>v0 = vertices mesh ! i0, v1 = vertices mesh ! i1, v2 = vertices mesh ! i2\<rparr>;
                r = rotateTriangle t
            in if snd r then
                 (case hashRange (triangle_data (fst r)) (sizeof_Vertex * 3) of
                    None \<Rightarrow> None
                  | Some hash \<Rightarrow> Some (fst h XOR hash, snd h + hash))
               else Some h)
         else None)"

function hashMesh_loop :: "Mesh \<Rightarrow> nat \<Rightarrow> nat \<Rightarrow> u32 \<times> u32 \<Rightarrow> (u32 \<times> u32) option" where
  "hashMesh_loop mesh triangle_count i h =
     (if i < triangle_count then
        (case hashMesh_body mesh i h of
           None \<Rightarrow> None
         | Some h' \<Rightarrow> hashMesh_loop mesh triangle_count (i + 1) h')
      else Some h)"
  by pat_completeness auto
termination
  by (relation "measure (\<lambda>(mesh, triangle_count, i, h). triangle_count - i)") auto

definition hashMesh :: "Mesh \<Rightarrow> u32 option" where
  "hashMesh mesh =
     (let triangle_count = length (indices mesh) div 3 in
      case hashMesh_loop mesh triangle_count 0 (0, 0) of
        None \<Rightarrow> None
      | Some (h1, h2) \<Rightarrow> Some (h1 * 0x5bd1e995 + h2))"

section \<open>isMeshValid\<close>

function isMeshValid_loop :: "u32 list \<Rightarrow> nat \<Rightarrow> nat \<Rightarrow> nat \<Rightarrow> bool" where
  "isMeshValid_loop inds index_count vertex_count i =
     (if i < index_count then
        (if unat (inds ! i) \<ge> vertex_count then False
         else isMeshValid_loop inds index_count vertex_count (i + 1))
      else True)"
  by pat_completeness auto
termination
  by (relation "measure (\<lambda>(inds, index_count, vertex_count, i). index_count - i)") auto

definition isMeshValid :: "Mesh \<Rightarrow> bool" where
  "isMeshValid mesh =
     (let index_count = length (indices mesh);
          vertex_count = length (vertices mesh)
      in if index_count mod 3 \<noteq> 0 then False
         else isMeshValid_loop (indices mesh) index_count vertex_count 0)"

section \<open>optNone and optRandomShuffle\<close>

text \<open>A transform takes the mesh by reference and rewrites it in place: the model returns
  the mesh it leaves behind, \<open>None\<close> when it runs into undefined behaviour.\<close>

definition optNone :: "Mesh \<Rightarrow> Mesh option" where
  "optNone mesh = Some mesh"

text \<open>\<open>t = indices[a], indices[a] = indices[b], indices[b] = t\<close>; an access outside the
  buffer is \<open>None\<close>.\<close>

definition swap_indices :: "u32 list \<Rightarrow> nat \<Rightarrow> nat \<Rightarrow> u32 list option" where
  "swap_indices xs a b =
     (if a < length xs \<and> b < length xs then Some (xs[a := xs ! b, b := xs ! a]) else None)"

text \<open>The loop counter \<open>i\<close> is a \<open>size_t\<close>, the generator state an \<open>unsigned int\<close> that is
  widened for \<open>rng % (i + 1)\<close>; a zero divisor there is undefined behaviour, \<open>None\<close>.\<close>

function optRandomShuffle_loop :: "size_t \<Rightarrow> u32 \<Rightarrow> u32 list \<Rightarrow> u32 list option" where
  "optRandomShuffle_loop i rng xs =
     (if i > 0 then
        (if i + 1 = 0 then None
         else
           (let j = ucast rng mod (i + 1) in
            case swap_indices xs (unat (3 * j + 0)) (unat (3 * i + 0)) of
              None \<Rightarrow> None
            | Some xs1 \<Rightarrow>
                (case swap_indices xs1 (unat (3 * j + 1)) (unat (3 * i + 1)) of
                   None \<Rightarrow> None
                 | Some xs2 \<Rightarrow>
                     (case swap_indices xs2 (unat (3 * j + 2)) (unat (3 * i + 2)) of
                        None \<Rightarrow> None
                      | Some xs3 \<Rightarrow>
                          optRandomShuffle_loop (i - 1) (rng * 1664525 + 1013904223) xs3))))
      else Some xs)"
  by pat_completeness auto
termination
proof (relation "measure (\<lambda>(i, rng, xs). unat i)")
  show "wf (measure (\<lambda>(i :: size_t, rng :: u32, xs :: u32 list). unat i))"
    by simp
next
  fix i :: size_t and rng :: u32 and xs x2 x2a x2b :: "u32 list" and x :: size_t
  assume "0 < i"
  then have "unat (i - 1) < unat i"
    by (metis unat_minus_one word_gt_0 diff_less unat_gt_0 zero_less_one)
  then show "((i - 1, rng * 1664525 + 1013904223, x2b), i, rng, xs)
      \<in> measure (\<lambda>(i, rng, xs). unat i)"
    by simp
qed

definition optRandomShuffle :: "Mesh \<Rightarrow> Mesh option" where
  "optRandomShuffle mesh =
     (let triangle_count = (of_nat (length (indices mesh) div 3) :: size_t) in
      case optRandomShuffle_loop (triangle_count - 1) 0 (indices mesh) of
        None \<Rightarrow> None
      | Some xs \<Rightarrow> Some (mesh\<lparr>indices := xs\<rparr>))"

section \<open>optimize\<close>

text \<open>\<open>optimize\<close> gets the caller's mesh by \<open>const\<close> reference and hands its local \<open>copy\<close> to
  the transform by reference. To keep the two objects apart they live in a store: the list
  of the \<open>Mesh\<close> objects alive, the address of an object being its position. A local is
  pushed when it is constructed and popped when its function returns.\<close>

type_synonym store = "Mesh list"

text \<open>A transform is a \<open>void (*)(Mesh&)\<close>: given a reference it turns the store into
  another one, or runs into undefined behaviour (\<open>None\<close>). \<open>by_reference f\<close> is the transform
  that rewrites the object it is given as \<open>f\<close> says and touches nothing else, as \<open>optNone\<close>
  and \<open>optRandomShuffle\<close> do.\<close>

definition by_reference :: "(Mesh \<Rightarrow> Mesh option) \<Rightarrow> nat \<Rightarrow> store \<Rightarrow> store option" where
  "by_reference f r s =
     (if r < length s then
        (case f (s ! r) of
           None \<Rightarrow> None
         | Some m \<Rightarrow> Some (s[r := m]))
      else None)"



section \<open>Notions used to state the properties\<close>

text \<open>The byte order on vertices that \<open>rotateTriangle\<close> tests with \<open>memcmp\<close>.\<close>

definition vless :: "Vertex \<Rightarrow> Vertex \<Rightarrow> bool" where
  "vless a b \<longleftrightarrow> memcmp (vertex_data a) (vertex_data b) sizeof_Vertex < 0"

text \<open>The index buffer read as whole consecutive triples; up to two trailing indices belong
  to no triangle.\<close>

fun triangles :: "'a list \<Rightarrow> ('a \<times> 'a \<times> 'a) list" where
  "triangles (a # b # c # rest) = (a, b, c) # triangles rest"
| "triangles _ = []"

text \<open>The loop body of \<open>hashMesh\<close> on one index triple, and the loop as a traversal of the
  list of triples.\<close>

definition triangle_step ::
  "Vertex list \<Rightarrow> u32 \<times> u32 \<times> u32 \<Rightarrow> u32 \<times> u32 \<Rightarrow> (u32 \<times> u32) option" where
  "triangle_step vs tri h =
     hashMesh_body \<lparr>vertices = vs, indices = [fst tri, fst (snd tri), snd (snd tri)]\<rparr> 0 h"

fun accumulate ::
  "Vertex list \<Rightarrow> (u32 \<times> u32 \<times> u32) list \<Rightarrow> u32 \<times> u32 \<Rightarrow> (u32 \<times> u32) option" where
  "accumulate vs [] h = Some h"
| "accumulate vs (tri # ts) h =
     (case triangle_step vs tri h of None \<Rightarrow> None | Some h' \<Rightarrow> accumulate vs ts h')"

definition triangle_in_range :: "Vertex list \<Rightarrow> u32 \<times> u32 \<times> u32 \<Rightarrow> bool" where
  "triangle_in_range vs tri \<longleftrightarrow>
     unat (fst tri) < length vs \<and> unat (fst (snd tri)) < length vs \<and>
     unat (snd (snd tri)) < length vs"

definition gather :: "Vertex list \<Rightarrow> u32 \<times> u32 \<times> u32 \<Rightarrow> Triangle" where
  "gather vs tri =
     \<lparr>v0 = vs ! unat (fst tri), v1 = vs ! unat (fst (snd tri)), v2 = vs ! unat (snd (snd tri))\<rparr>"

text \<open>What one triangle adds to both accumulators: its hash, or nothing (0) when
  \<open>rotateTriangle\<close> reports it degenerate.\<close>

definition triangle_hash :: "Vertex list \<Rightarrow> u32 \<times> u32 \<times> u32 \<Rightarrow> u32" where
  "triangle_hash vs tri =
     (let r = rotateTriangle (gather vs tri)
      in if snd r then
           (case hashRange (triangle_data (fst r)) (sizeof_Vertex * 3) of
              None \<Rightarrow> 0
            | Some hash \<Rightarrow> hash)
         else 0)"


text \<open>The mesh \<open>generatePlane(1)\<close> builds: four vertices \<open>{x, y, 0, 0, 0, 1, x, y}\<close> (with
  \<open>1.0f = 0x3f800000\<close>) and the two triangles \<open>0 1 2\<close> and \<open>2 1 3\<close>.\<close>

definition plane_vertex :: "u32 \<Rightarrow> u32 \<Rightarrow> Vertex" where
  "plane_vertex x y = \<lparr>px = x, py = y, pz = 0, nx = 0, ny = 0, nz = 0x3f800000, tx = x, ty = y\<rparr>"

definition plane_mesh :: Mesh where
  "plane_mesh =
     \<lparr>vertices = [plane_vertex 0 0, plane_vertex 0x3f800000 0,
                  plane_vertex 0 0x3f800000, plane_vertex 0x3f800000 0x3f800000],
      indices = [0, 1, 2, 2, 1, 3]\<rparr>"

declare hashRange_loop.simps [simp del]
declare hashMesh_loop.simps [simp del]
declare isMeshValid_loop.simps [simp del]
declare optRandomShuffle_loop.simps [simp del]

section \<open>The byte order of vertices\<close>

lemma byte_diff_neg: "int (unat (a::u8)) - int (unat b) < 0 \<longleftrightarrow> a < b"
  by (simp add: word_less_def)

lemma byte_diff_zero: "int (unat (a::u8)) - int (unat b) = 0 \<longleftrightarrow> a = b"
  by (simp add: word_uint_eq_iff)

lemma memcmp_sym: "memcmp b a n = - memcmp a b n"
  by (induction a b n rule: memcmp.induct) auto

lemma memcmp_eq0:
  "n \<le> length a \<Longrightarrow> n \<le> length b \<Longrightarrow> memcmp a b n = 0 \<longleftrightarrow> take n a = take n b"
proof (induction a b n rule: memcmp.induct)
  case (1 a as b bs n)
  then show ?case using byte_diff_zero [of a b] by auto
qed auto

lemma memcmp_trans: "memcmp a b n < 0 \<Longrightarrow> memcmp b c n < 0 \<Longrightarrow> memcmp a c n < 0"
proof (induction a b n arbitrary: c rule: memcmp.induct)
  case (1 a as b bs n)
  show ?case
  proof (cases c)
    case Nil
    with 1 show ?thesis by simp
  next
    case (Cons x xs)
    with 1 show ?thesis
      using byte_diff_neg [of a b] byte_diff_neg [of b x] byte_diff_neg [of a x]
      by (auto split: if_splits simp del: of_nat_unat)
  qed
qed auto

lemma length_word_bytes: "length (word_bytes w) = 4"
  by (simp add: word_bytes_def)

lemma length_vertex_data: "length (vertex_data v) = sizeof_Vertex"
  by (simp add: vertex_data_def length_word_bytes sizeof_Vertex_def)

lemma length_triangle_data: "length (triangle_data t) = sizeof_Vertex * 3"
  by (simp add: triangle_data_def length_vertex_data)

lemma vless_gt: "memcmp (vertex_data a) (vertex_data b) sizeof_Vertex > 0 \<longleftrightarrow> vless b a"
  using memcmp_sym [of "vertex_data a" "vertex_data b" sizeof_Vertex] by (auto simp: vless_def)

lemma vless_lt: "memcmp (vertex_data a) (vertex_data b) sizeof_Vertex < 0 \<longleftrightarrow> vless a b"
  by (simp add: vless_def)

lemma vertex_memcmp_zero:
  "memcmp (vertex_data a) (vertex_data b) sizeof_Vertex = 0 \<longleftrightarrow> vertex_data a = vertex_data b"
  using memcmp_eq0 [of sizeof_Vertex "vertex_data a" "vertex_data b"]
  by (simp add: length_vertex_data)

lemma vless_trans: "vless a b \<Longrightarrow> vless b c \<Longrightarrow> vless a c"
  unfolding vless_def by (rule memcmp_trans)

lemma vless_asym: "vless a b \<Longrightarrow> \<not> vless b a"
  using memcmp_sym [of "vertex_data a" "vertex_data b" sizeof_Vertex] by (auto simp: vless_def)

lemma vless_total: "vertex_data a \<noteq> vertex_data b \<Longrightarrow> vless a b \<or> vless b a"
  using vertex_memcmp_zero [of a b] vless_gt [of a b] by (auto simp: vless_def)

text \<open>\<open>rotateTriangle\<close> in terms of the byte order: the branch conditions are "vertex 1 is
  below both others" and "vertex 2 is below both others".\<close>

lemma rotateTriangle_vless:
  "rotateTriangle t =
     (if vless (v1 t) (v2 t) \<and> vless (v1 t) (v0 t) then \<lparr>v0 = v1 t, v1 = v2 t, v2 = v0 t\<rparr>
      else if vless (v2 t) (v0 t) \<and> vless (v2 t) (v1 t) then \<lparr>v0 = v2 t, v1 = v0 t, v2 = v1 t\<rparr>
      else t,
      vertex_data (v0 t) \<noteq> vertex_data (v1 t) \<and> vertex_data (v0 t) \<noteq> vertex_data (v2 t) \<and>
      vertex_data (v1 t) \<noteq> vertex_data (v2 t))"
  by (simp add: rotateTriangle_def Let_def vless_gt vless_lt vertex_memcmp_zero)

text \<open>Among three vertices with pairwise different bytes exactly one is below both others.\<close>

lemma three_distinct_cases:
  assumes "vertex_data a \<noteq> vertex_data b" and "vertex_data a \<noteq> vertex_data c"
    and "vertex_data b \<noteq> vertex_data c"
  shows "(vless a b \<and> vless a c \<and> \<not> vless b a \<and> \<not> vless c a) \<or>
         (vless b c \<and> vless b a \<and> \<not> vless c b \<and> \<not> vless a b) \<or>
         (vless c a \<and> vless c b \<and> \<not> vless a c \<and> \<not> vless b c)"
proof -
  have tot: "vless a b \<or> vless b a" "vless a c \<or> vless c a" "vless b c \<or> vless c b"
    using assms by (auto dest: vless_total)
  have tr: "vless a b \<Longrightarrow> vless b c \<Longrightarrow> vless a c" "vless b c \<Longrightarrow> vless c a \<Longrightarrow> vless b a"
    "vless c a \<Longrightarrow> vless a b \<Longrightarrow> vless c b" "vless a c \<Longrightarrow> vless c b \<Longrightarrow> vless a b"
    "vless b a \<Longrightarrow> vless a c \<Longrightarrow> vless b c" "vless c b \<Longrightarrow> vless b a \<Longrightarrow> vless c a"
    by (blast intro: vless_trans)+
  have "(vless a b \<and> vless a c) \<or> (vless b c \<and> vless b a) \<or> (vless c a \<and> vless c b)"
    using tot tr by blast
  then show ?thesis by (blast dest: vless_asym)
qed

lemma triangle_data_eq_iff:
  "triangle_data s = triangle_data t \<longleftrightarrow>
     vertex_data (v0 s) = vertex_data (v0 t) \<and> vertex_data (v1 s) = vertex_data (v1 t) \<and>
     vertex_data (v2 s) = vertex_data (v2 t)"
  by (simp add: triangle_data_def length_vertex_data)

text \<open>The byte images of the four vertices of \<open>plane_mesh\<close> differ pairwise.\<close>

lemma plane_vertex_data:
  "vertex_data (plane_vertex x y) =
     word_bytes x @ word_bytes y @ word_bytes 0 @ word_bytes 0 @ word_bytes 0 @
     word_bytes 0x3f800000 @ word_bytes x @ word_bytes y"
  by (simp add: vertex_data_def plane_vertex_def)

lemma word_bytes_one_float: "word_bytes 0x3f800000 = [0, 0, 0x80, 0x3f]"
  by (simp add: word_bytes_def)

lemma word_bytes_zero: "word_bytes 0 = [0, 0, 0, 0]"
  by (simp add: word_bytes_def)

lemma plane_vertices_distinct:
  "vertex_data (plane_vertex 0 0) \<noteq> vertex_data (plane_vertex 0x3f800000 0)"
  "vertex_data (plane_vertex 0 0) \<noteq> vertex_data (plane_vertex 0 0x3f800000)"
  "vertex_data (plane_vertex 0 0) \<noteq> vertex_data (plane_vertex 0x3f800000 0x3f800000)"
  "vertex_data (plane_vertex 0x3f800000 0) \<noteq> vertex_data (plane_vertex 0 0x3f800000)"
  "vertex_data (plane_vertex 0x3f800000 0) \<noteq> vertex_data (plane_vertex 0x3f800000 0x3f800000)"
  "vertex_data (plane_vertex 0 0x3f800000) \<noteq> vertex_data (plane_vertex 0x3f800000 0x3f800000)"
  by (simp_all add: plane_vertex_data word_bytes_one_float word_bytes_zero)

section \<open>Canonical rotation\<close>

text \<open>
  Claim C1. For a triangle whose three vertices have pairwise different bytes, \<open>rotateTriangle\<close>
  gives the same triangle on all three cyclic rotations of the vertex order and reports it
  non-degenerate. The result is one of the three cyclic rotations of the input (never a
  reflection), and its first vertex is below the other two in the byte order.
\<close>

theorem rotateTriangle_rotation_invariant:
  assumes "vertex_data a \<noteq> vertex_data b" and "vertex_data a \<noteq> vertex_data c"
    and "vertex_data b \<noteq> vertex_data c"
  shows "(let r = fst (rotateTriangle \<lparr>v0 = a, v1 = b, v2 = c\<rparr>) in
      rotateTriangle \<lparr>v0 = a, v1 = b, v2 = c\<rparr> = (r, True) \<and>
      rotateTriangle \<lparr>v0 = b, v1 = c, v2 = a\<rparr> = (r, True) \<and>
      rotateTriangle \<lparr>v0 = c, v1 = a, v2 = b\<rparr> = (r, True) \<and>
      (r = \<lparr>v0 = a, v1 = b, v2 = c\<rparr> \<or> r = \<lparr>v0 = b, v1 = c, v2 = a\<rparr> \<or>
       r = \<lparr>v0 = c, v1 = a, v2 = b\<rparr>) \<and>
      memcmp (vertex_data (v0 r)) (vertex_data (v1 r)) sizeof_Vertex < 0 \<and>
      memcmp (vertex_data (v0 r)) (vertex_data (v2 r)) sizeof_Vertex < 0)"
proof -
  have ne: "vertex_data b \<noteq> vertex_data a" "vertex_data c \<noteq> vertex_data a"
    "vertex_data c \<noteq> vertex_data b"
    using assms by auto
  from three_distinct_cases [OF assms]
  consider (A) "vless a b" "vless a c" "\<not> vless b a" "\<not> vless c a"
    | (B) "vless b c" "vless b a" "\<not> vless c b" "\<not> vless a b"
    | (C) "vless c a" "vless c b" "\<not> vless a c" "\<not> vless b c"
    by blast
  then show ?thesis
  proof cases
    case A
    then show ?thesis using assms ne
      by (simp add: rotateTriangle_vless Let_def vless_lt)
  next
    case B
    then show ?thesis using assms ne
      by (simp add: rotateTriangle_vless Let_def vless_lt)
  next
    case C
    then show ?thesis using assms ne
      by (simp add: rotateTriangle_vless Let_def vless_lt)
  qed
qed

theorem rotateTriangle_rotation_invariant_witness:
  "(let r = fst (rotateTriangle \<lparr>v0 = plane_vertex 0x3f800000 0, v1 = plane_vertex 0 0x3f800000,
                                 v2 = plane_vertex 0 0\<rparr>) in
      rotateTriangle \<lparr>v0 = plane_vertex 0x3f800000 0, v1 = plane_vertex 0 0x3f800000,
                      v2 = plane_vertex 0 0\<rparr> = (r, True) \<and>
      rotateTriangle \<lparr>v0 = plane_vertex 0 0x3f800000, v1 = plane_vertex 0 0,
                      v2 = plane_vertex 0x3f800000 0\<rparr> = (r, True) \<and>
      rotateTriangle \<lparr>v0 = plane_vertex 0 0, v1 = plane_vertex 0x3f800000 0,
                      v2 = plane_vertex 0 0x3f800000\<rparr> = (r, True))"
  using rotateTriangle_rotation_invariant [OF plane_vertices_distinct(4)
      plane_vertices_distinct(1) [symmetric] plane_vertices_distinct(2) [symmetric]]
  by (simp add: Let_def)

section \<open>Winding sensitivity\<close>

text \<open>
  Claim C7. For a triangle whose three vertices have pairwise different bytes, the canonical
  form of the reversed triangle \<open>(c, b, a)\<close> differs from the canonical form of \<open>(a, b, c)\<close>:
  the two rotated triangles differ in their bytes, hence also as results of \<open>rotateTriangle\<close>.
\<close>

theorem rotateTriangle_reflection_differs:
  assumes "vertex_data a \<noteq> vertex_data b" and "vertex_data a \<noteq> vertex_data c"
    and "vertex_data b \<noteq> vertex_data c"
  shows "triangle_data (fst (rotateTriangle \<lparr>v0 = c, v1 = b, v2 = a\<rparr>)) \<noteq>
         triangle_data (fst (rotateTriangle \<lparr>v0 = a, v1 = b, v2 = c\<rparr>)) \<and>
         rotateTriangle \<lparr>v0 = c, v1 = b, v2 = a\<rparr> \<noteq> rotateTriangle \<lparr>v0 = a, v1 = b, v2 = c\<rparr>"
proof -
  have ne: "vertex_data b \<noteq> vertex_data a" "vertex_data c \<noteq> vertex_data a"
    "vertex_data c \<noteq> vertex_data b"
    using assms by auto
  from three_distinct_cases [OF assms]
  consider (A) "vless a b" "vless a c" "\<not> vless b a" "\<not> vless c a"
    | (B) "vless b c" "vless b a" "\<not> vless c b" "\<not> vless a b"
    | (C) "vless c a" "vless c b" "\<not> vless a c" "\<not> vless b c"
    by blast
  then have "triangle_data (fst (rotateTriangle \<lparr>v0 = c, v1 = b, v2 = a\<rparr>)) \<noteq>
         triangle_data (fst (rotateTriangle \<lparr>v0 = a, v1 = b, v2 = c\<rparr>))"
  proof cases
    case A
    then show ?thesis using assms ne
      by (simp add: rotateTriangle_vless triangle_data_eq_iff)
  next
    case B
    then show ?thesis using assms ne
      by (simp add: rotateTriangle_vless triangle_data_eq_iff)
  next
    case C
    then show ?thesis using assms ne
      by (simp add: rotateTriangle_vless triangle_data_eq_iff)
  qed
  then show ?thesis by auto
qed

theorem rotateTriangle_reflection_differs_witness:
  "triangle_data (fst (rotateTriangle \<lparr>v0 = plane_vertex 0 0x3f800000,
       v1 = plane_vertex 0x3f800000 0, v2 = plane_vertex 0 0\<rparr>)) \<noteq>
   triangle_data (fst (rotateTriangle \<lparr>v0 = plane_vertex 0 0,
       v1 = plane_vertex 0x3f800000 0, v2 = plane_vertex 0 0x3f800000\<rparr>))"
  using rotateTriangle_reflection_differs [OF plane_vertices_distinct(1)
      plane_vertices_distinct(2) plane_vertices_distinct(4)]
  by simp

section \<open>The block hash\<close>

lemma four_bytes: "4 \<le> length xs \<Longrightarrow> \<exists>a b c d rest. xs = a # b # c # d # rest"
  by (auto simp: Suc_le_length_iff numeral_eq_Suc)

lemma hashRange_loop_step:
  "4 \<le> len \<Longrightarrow> hashRange_loop (b0 # b1 # b2 # b3 # rest) len h =
     hashRange_loop rest (len - 4) (mix h (read_u32 b0 b1 b2 b3))"
  by (subst hashRange_loop.simps) simp

lemma hashRange_loop_stop: "len < 4 \<Longrightarrow> hashRange_loop key len h = Some h"
  by (subst hashRange_loop.simps) simp

lemma hashRange_loop_short:
  "4 \<le> len \<Longrightarrow> length key < 4 \<Longrightarrow> hashRange_loop key len h = None"
  by (subst hashRange_loop.simps) (auto split: list.splits)

text \<open>The loop succeeds whenever the buffer holds \<open>len\<close> bytes.\<close>

lemma hashRange_loop_total:
  "len \<le> length key \<Longrightarrow> \<exists>r. hashRange_loop key len h = Some r"
proof (induction key len h rule: hashRange_loop.induct)
  case (1 key len h)
  show ?case
  proof (cases "4 \<le> len")
    case True
    then obtain b0 b1 b2 b3 rest where k: "key = b0 # b1 # b2 # b3 # rest"
      using 1(2) four_bytes [of key] by auto
    then have "len - 4 \<le> length rest" using 1(2) by simp
    from 1(1) [OF True k refl refl refl this] obtain r where
      "hashRange_loop rest (len - 4) (mix h (read_u32 b0 b1 b2 b3)) = Some r" by blast
    then show ?thesis using True k by (simp add: hashRange_loop_step)
  next
    case False
    then show ?thesis by (simp add: hashRange_loop_stop)
  qed
qed

lemma hashRange_loop_whole_chunks:
  "hashRange_loop key len h = hashRange_loop key (4 * (len div 4)) h"
proof (induction key len h rule: hashRange_loop.induct)
  case (1 key len h)
  show ?case
  proof (cases "4 \<le> len")
    case True
    then have ge: "4 \<le> 4 * (len div 4)" by presburger
    have sub: "4 * (len div 4) - 4 = 4 * ((len - 4) div 4)" using True by presburger
    show ?thesis
    proof (cases "4 \<le> length key")
      case k4: True
      then obtain b0 b1 b2 b3 rest where k: "key = b0 # b1 # b2 # b3 # rest"
        using four_bytes [of key] by auto
      have "hashRange_loop rest (len - 4) (mix h (read_u32 b0 b1 b2 b3)) =
          hashRange_loop rest (4 * ((len - 4) div 4)) (mix h (read_u32 b0 b1 b2 b3))"
        by (rule 1 [OF True k refl refl refl])
      then show ?thesis using True ge sub k by (simp add: hashRange_loop_step)
    next
      case False
      then show ?thesis using True ge by (simp add: hashRange_loop_short)
    qed
  next
    case False
    then have "4 * (len div 4) = 0" by simp
    then show ?thesis using False by (simp add: hashRange_loop_stop)
  qed
qed

text \<open>Only the bytes of the whole chunks are read.\<close>

lemma hashRange_loop_take:
  "hashRange_loop key (4 * q) h = hashRange_loop (take (4 * q) key) (4 * q) h"
proof (induction q arbitrary: key h)
  case 0
  then show ?case by (simp add: hashRange_loop_stop)
next
  case (Suc q)
  show ?case
  proof (cases "4 \<le> length key")
    case True
    then obtain b0 b1 b2 b3 rest where k: "key = b0 # b1 # b2 # b3 # rest"
      using four_bytes [of key] by auto
    have t: "take (4 * Suc q) key = b0 # b1 # b2 # b3 # take (4 * q) rest"
      by (simp add: k take_Cons')
    show ?thesis
      unfolding t unfolding k using Suc [of rest "mix h (read_u32 b0 b1 b2 b3)"]
      by (simp add: hashRange_loop_step)
  next
    case False
    then have "length (take (4 * Suc q) key) < 4" by simp
    then show ?thesis using False by (simp add: hashRange_loop_short)
  qed
qed

text \<open>
  Claim C9. \<open>hashRange\<close> works on whole 4-byte chunks only: its result for \<open>len\<close> bytes is its
  result for the \<open>4 * (len div 4)\<close> bytes of the whole chunks, whatever bytes follow them
  in the buffer, and below 4 bytes it is 0.
\<close>

theorem hashRange_whole_chunks:
  "hashRange key len = hashRange key (4 * (len div 4)) \<and>
   hashRange key len = hashRange (take (4 * (len div 4)) key) (4 * (len div 4)) \<and>
   (len < 4 \<longrightarrow> hashRange key len = Some 0)"
  using hashRange_loop_whole_chunks [of key len 0] hashRange_loop_take [of key "len div 4" 0]
  by (simp add: hashRange_def hashRange_loop_stop)

theorem hashRange_whole_chunks_witness:
  "hashRange [1, 2, 3, 4, 5, 6, 7] 7 = hashRange [1, 2, 3, 4, 5, 6, 7] 4 \<and>
   hashRange [1, 2, 3, 4, 5, 6, 7] 7 = hashRange [1, 2, 3, 4] 4 \<and>
   hashRange [8, 9, 10] 3 = Some 0"
  using hashRange_whole_chunks [of "[1, 2, 3, 4, 5, 6, 7]" 7, THEN conjunct1]
    hashRange_whole_chunks [of "[1, 2, 3, 4, 5, 6, 7]" 7, THEN conjunct2, THEN conjunct1]
    hashRange_whole_chunks [of "[8, 9, 10]" 3, THEN conjunct2, THEN conjunct2]
  by simp

section \<open>The fingerprint as a traversal of the triangle list\<close>

lemma length_triangles: "length (triangles xs) = length xs div 3"
  by (induction xs rule: triangles.induct) auto

lemma triangles_nth:
  "i < length xs div 3 \<Longrightarrow>
     triangles xs ! i = (xs ! (i * 3 + 0), xs ! (i * 3 + 1), xs ! (i * 3 + 2))"
proof (induction xs arbitrary: i rule: triangles.induct)
  case (1 a b c rest)
  then show ?case by (cases i) auto
qed auto

lemma triangles_append:
  "length xs mod 3 = 0 \<Longrightarrow> triangles (xs @ ys) = triangles xs @ triangles ys"
  by (induction xs rule: triangles.induct) auto

lemma hashMesh_body_triangle_step:
  "i < length (indices mesh) div 3 \<Longrightarrow>
     hashMesh_body mesh i h = triangle_step (vertices mesh) (triangles (indices mesh) ! i) h"
  by (simp add: triangles_nth hashMesh_body_def triangle_step_def Let_def)

lemma hashMesh_loop_accumulate:
  "i \<le> n \<Longrightarrow> n = length (indices mesh) div 3 \<Longrightarrow>
     hashMesh_loop mesh n i h = accumulate (vertices mesh) (drop i (triangles (indices mesh))) h"
proof (induction mesh n i h rule: hashMesh_loop.induct)
  case (1 mesh n i h)
  show ?case
  proof (cases "i < n")
    case True
    then have d: "drop i (triangles (indices mesh)) =
        triangles (indices mesh) ! i # drop (Suc i) (triangles (indices mesh))"
      using 1(3) by (simp add: Cons_nth_drop_Suc length_triangles)
    have b: "hashMesh_body mesh i h =
        triangle_step (vertices mesh) (triangles (indices mesh) ! i) h"
      using True 1(3) by (simp add: hashMesh_body_triangle_step)
    show ?thesis
    proof (cases "hashMesh_body mesh i h")
      case None
      have "hashMesh_loop mesh n i h = None"
        using True None by (simp add: hashMesh_loop.simps [of mesh n i h])
      moreover have "accumulate (vertices mesh) (drop i (triangles (indices mesh))) h = None"
        using None b by (simp add: d)
      ultimately show ?thesis by simp
    next
      case (Some h')
      have "hashMesh_loop mesh n i h = hashMesh_loop mesh n (i + 1) h'"
        using True Some by (simp add: hashMesh_loop.simps [of mesh n i h])
      moreover have "accumulate (vertices mesh) (drop i (triangles (indices mesh))) h =
          accumulate (vertices mesh) (drop (Suc i) (triangles (indices mesh))) h'"
        using Some b by (simp add: d)
      moreover have "hashMesh_loop mesh n (i + 1) h' =
          accumulate (vertices mesh) (drop (i + 1) (triangles (indices mesh))) h'"
        using 1(1) [OF True Some] True 1(3) by simp
      ultimately show ?thesis by simp
    qed
  next
    case False
    then have "hashMesh_loop mesh n i h = Some h"
      by (simp add: hashMesh_loop.simps [of mesh n i h])
    moreover have "drop i (triangles (indices mesh)) = []"
      using False 1(3) by (simp add: length_triangles)
    ultimately show ?thesis by simp
  qed
qed

lemma hashMesh_accumulate:
  "hashMesh mesh =
     (case accumulate (vertices mesh) (triangles (indices mesh)) (0, 0) of
        None \<Rightarrow> None
      | Some (h1, h2) \<Rightarrow> Some (h1 * 0x5bd1e995 + h2))"
  by (simp add: hashMesh_def hashMesh_loop_accumulate)

text \<open>One triangle either stops the traversal (an index outside the vertex buffer) or adds
  its hash to both accumulators, the first by XOR, the second by addition.\<close>

lemma triangle_step_closed:
  "triangle_step vs tri h =
     (if triangle_in_range vs tri
      then Some (fst h XOR triangle_hash vs tri, snd h + triangle_hash vs tri)
      else None)"
proof -
  obtain r where
    "hashRange (triangle_data (fst (rotateTriangle (gather vs tri)))) (sizeof_Vertex * 3) = Some r"
    using hashRange_loop_total [of "sizeof_Vertex * 3"
        "triangle_data (fst (rotateTriangle (gather vs tri)))" 0]
    by (auto simp: hashRange_def length_triangle_data)
  then show ?thesis
    by (simp add: triangle_step_def hashMesh_body_def triangle_in_range_def triangle_hash_def
        gather_def Let_def)
qed

lemma accumulate_closed:
  "accumulate vs ts h =
     (if \<forall>tri \<in> set ts. triangle_in_range vs tri
      then Some (fold (XOR) (map (triangle_hash vs) ts) (fst h),
                 snd h + sum_list (map (triangle_hash vs) ts))
      else None)"
  by (induction ts arbitrary: h) (auto simp: triangle_step_closed xor.commute add.assoc)

lemma accumulate_append:
  "accumulate vs (ts @ us) h =
     (case accumulate vs ts h of None \<Rightarrow> None | Some h' \<Rightarrow> accumulate vs us h')"
  by (induction ts arbitrary: h) (auto split: option.splits)

lemma fold_xor_mset:
  assumes "mset xs = mset ys"
  shows "fold (XOR) xs (h :: u32) = fold (XOR) ys h"
proof -
  have "fold (XOR) xs = (fold (XOR) ys :: u32 \<Rightarrow> u32)"
    using assms by (intro fold_multiset_equiv) (auto simp: fun_eq_iff xor.left_commute)
  then show ?thesis by simp
qed

lemma accumulate_mset:
  assumes "mset ts = mset ts'"
  shows "accumulate vs ts h = accumulate vs ts' h"
proof -
  have s: "set ts = set ts'" using assms by (rule mset_eq_setD)
  have m: "mset (map (triangle_hash vs) ts) = mset (map (triangle_hash vs) ts')"
    using assms by (metis mset_map)
  have "sum_list (map (triangle_hash vs) ts) = sum_list (map (triangle_hash vs) ts')"
    using m by (metis sum_mset_sum_list)
  then show ?thesis using s fold_xor_mset [OF m] by (simp add: accumulate_closed)
qed

lemma hashMesh_mset:
  assumes "vertices mesh' = vertices mesh"
    and "mset (triangles (indices mesh')) = mset (triangles (indices mesh))"
  shows "hashMesh mesh' = hashMesh mesh"
  using assms accumulate_mset [OF assms(2), of "vertices mesh" "(0, 0)"]
  by (simp add: hashMesh_accumulate)

section \<open>Order independence\<close>

text \<open>
  Claim C2. When two meshes have the same vertex buffer and index buffers whose whole
  consecutive triples are the same up to their order (as multisets), \<open>hashMesh\<close> gives the
  same result on both. The result is the XOR of the triangle hashes times \<open>0x5bd1e995\<close> plus
  their sum, the two accumulators being combined after the last triangle only; it is
  undefined exactly when some triangle holds an index outside the vertex buffer.
\<close>

theorem hashMesh_permutation_invariant:
  assumes "vertices mesh' = vertices mesh"
    and "mset (triangles (indices mesh')) = mset (triangles (indices mesh))"
  shows "hashMesh mesh' = hashMesh mesh \<and>
    hashMesh mesh =
      (if \<forall>tri \<in> set (triangles (indices mesh)). triangle_in_range (vertices mesh) tri
       then Some (fold (XOR) (map (triangle_hash (vertices mesh)) (triangles (indices mesh))) 0
                    * 0x5bd1e995
                  + sum_list (map (triangle_hash (vertices mesh)) (triangles (indices mesh))))
       else None)"
  using hashMesh_mset [OF assms] by (simp add: hashMesh_accumulate accumulate_closed)

theorem hashMesh_permutation_invariant_witness:
  "hashMesh \<lparr>vertices = vertices plane_mesh, indices = [2, 1, 3, 0, 1, 2]\<rparr> = hashMesh plane_mesh"
proof -
  have "mset (triangles [2, 1, 3, 0, 1, 2 :: u32]) = mset (triangles [0, 1, 2, 2, 1, 3])"
    by simp
  then show ?thesis
    using hashMesh_permutation_invariant
      [of "\<lparr>vertices = vertices plane_mesh, indices = [2, 1, 3, 0, 1, 2]\<rparr>" plane_mesh]
    by (simp add: plane_mesh_def)
qed

section \<open>Degenerate triangles\<close>

lemma triangle_hash_degenerate:
  "\<not> snd (rotateTriangle (gather vs tri)) \<Longrightarrow> triangle_hash vs tri = 0"
  by (simp add: triangle_hash_def Let_def)

lemma accumulate_skip:
  assumes "triangle_in_range vs tri" and "\<not> snd (rotateTriangle (gather vs tri))"
  shows "accumulate vs (ts @ tri # us) h = accumulate vs (ts @ us) h"
  using assms
  by (simp add: accumulate_append triangle_step_closed triangle_hash_degenerate
      split: option.splits)

text \<open>
  Claim C4. \<open>rotateTriangle\<close> reports a triangle degenerate (returns false) exactly when two
  of its three vertices have the same bytes. A degenerate triangle adds nothing to the
  fingerprint: taking an index triple out of the index buffer, at a triangle boundary, whose
  three indices are inside the vertex buffer and two of whose vertices have the same bytes,
  leaves the result of \<open>hashMesh\<close> as it is.
\<close>

theorem degenerate_triangle_excluded:
  "(snd (rotateTriangle t) = False \<longleftrightarrow>
      vertex_data (v0 t) = vertex_data (v1 t) \<or> vertex_data (v0 t) = vertex_data (v2 t) \<or>
      vertex_data (v1 t) = vertex_data (v2 t)) \<and>
   (length pre mod 3 = 0 \<and> unat a < length vs \<and> unat b < length vs \<and> unat c < length vs \<and>
    (vertex_data (vs ! unat a) = vertex_data (vs ! unat b) \<or>
     vertex_data (vs ! unat a) = vertex_data (vs ! unat c) \<or>
     vertex_data (vs ! unat b) = vertex_data (vs ! unat c)) \<longrightarrow>
    hashMesh \<lparr>vertices = vs, indices = pre @ post\<rparr> =
    hashMesh \<lparr>vertices = vs, indices = pre @ a # b # c # post\<rparr>)"
proof (intro conjI impI)
  show "snd (rotateTriangle t) = False \<longleftrightarrow>
      vertex_data (v0 t) = vertex_data (v1 t) \<or> vertex_data (v0 t) = vertex_data (v2 t) \<or>
      vertex_data (v1 t) = vertex_data (v2 t)"
    by (auto simp add: rotateTriangle_vless)
next
  assume h: "length pre mod 3 = 0 \<and> unat a < length vs \<and> unat b < length vs \<and>
    unat c < length vs \<and>
    (vertex_data (vs ! unat a) = vertex_data (vs ! unat b) \<or>
     vertex_data (vs ! unat a) = vertex_data (vs ! unat c) \<or>
     vertex_data (vs ! unat b) = vertex_data (vs ! unat c))"
  then have r: "triangle_in_range vs (a, b, c)"
    by (simp add: triangle_in_range_def)
  have d: "\<not> snd (rotateTriangle (gather vs (a, b, c)))"
    using h by (auto simp add: rotateTriangle_vless gather_def)
  have "triangles (pre @ a # b # c # post) = triangles pre @ (a, b, c) # triangles post"
    using h by (simp add: triangles_append)
  moreover have "triangles (pre @ post) = triangles pre @ triangles post"
    using h by (simp add: triangles_append)
  ultimately show "hashMesh \<lparr>vertices = vs, indices = pre @ post\<rparr> =
      hashMesh \<lparr>vertices = vs, indices = pre @ a # b # c # post\<rparr>"
    using accumulate_skip [OF r d, of "triangles pre" "triangles post" "(0, 0)"]
    by (simp add: hashMesh_accumulate)
qed

theorem degenerate_triangle_excluded_witness:
  "snd (rotateTriangle \<lparr>v0 = plane_vertex 0 0, v1 = plane_vertex 0x3f800000 0,
                          v2 = plane_vertex 0 0\<rparr>) = False \<and>
   hashMesh \<lparr>vertices = vertices plane_mesh, indices = [0, 1, 2] @ [2, 1, 3]\<rparr> =
   hashMesh \<lparr>vertices = vertices plane_mesh, indices = [0, 1, 2] @ 1 # 1 # 3 # [2, 1, 3]\<rparr>"
  using degenerate_triangle_excluded
    [of "\<lparr>v0 = plane_vertex 0 0, v1 = plane_vertex 0x3f800000 0, v2 = plane_vertex 0 0\<rparr>"
        "[0, 1, 2]" 1 "vertices plane_mesh" 1 3 "[2, 1, 3]"]
  by (simp add: plane_mesh_def)

section \<open>Structural validity\<close>

lemma isMeshValid_loop_iff:
  "isMeshValid_loop inds n vc i \<longleftrightarrow> (\<forall>k. i \<le> k \<and> k < n \<longrightarrow> unat (inds ! k) < vc)"
proof (induction inds n vc i rule: isMeshValid_loop.induct)
  case (1 inds n vc i)
  show ?case
  proof (cases "i < n")
    case True
    show ?thesis
    proof (cases "vc \<le> unat (inds ! i)")
      case bad: True
      then have "\<not> isMeshValid_loop inds n vc i"
        using True by (simp add: isMeshValid_loop.simps [of inds n vc i])
      moreover have "\<not> (\<forall>k. i \<le> k \<and> k < n \<longrightarrow> unat (inds ! k) < vc)"
        using True bad by (auto intro: exI [of _ i])
      ultimately show ?thesis by simp
    next
      case False
      then have "isMeshValid_loop inds n vc i = isMeshValid_loop inds n vc (i + 1)"
        using True by (simp add: isMeshValid_loop.simps [of inds n vc i])
      also have "\<dots> \<longleftrightarrow> (\<forall>k. i + 1 \<le> k \<and> k < n \<longrightarrow> unat (inds ! k) < vc)"
        using 1 [OF True False] .
      also have "\<dots> \<longleftrightarrow> (\<forall>k. i \<le> k \<and> k < n \<longrightarrow> unat (inds ! k) < vc)"
      proof
        assume a: "\<forall>k. i + 1 \<le> k \<and> k < n \<longrightarrow> unat (inds ! k) < vc"
        show "\<forall>k. i \<le> k \<and> k < n \<longrightarrow> unat (inds ! k) < vc"
        proof (intro allI impI)
          fix k assume "i \<le> k \<and> k < n"
          then consider "k = i" | "i + 1 \<le> k \<and> k < n" by force
          then show "unat (inds ! k) < vc" using a False by cases auto
        qed
      next
        assume "\<forall>k. i \<le> k \<and> k < n \<longrightarrow> unat (inds ! k) < vc"
        then show "\<forall>k. i + 1 \<le> k \<and> k < n \<longrightarrow> unat (inds ! k) < vc" by simp
      qed
      finally show ?thesis .
    qed
  next
    case False
    then show ?thesis by (simp add: isMeshValid_loop.simps [of inds n vc i])
  qed
qed

lemma isMeshValid_set:
  "isMeshValid mesh \<longleftrightarrow>
     length (indices mesh) mod 3 = 0 \<and> (\<forall>x \<in> set (indices mesh). unat x < length (vertices mesh))"
  by (auto simp: isMeshValid_def Let_def isMeshValid_loop_iff all_set_conv_all_nth)

text \<open>
  Claim C5. \<open>isMeshValid\<close> returns false exactly when the length of the index buffer is not
  a multiple of 3 or some index is at least the vertex count. Nothing else enters the result:
  which vertices the indices name, and whether triangles repeat or are degenerate, plays no
  part.
\<close>

theorem isMeshValid_false_iff:
  "isMeshValid mesh = False \<longleftrightarrow>
     length (indices mesh) mod 3 \<noteq> 0 \<or>
     (\<exists>x \<in> set (indices mesh). unat x \<ge> length (vertices mesh))"
  by (auto simp: isMeshValid_set not_less)

theorem isMeshValid_false_iff_witness:
  "isMeshValid \<lparr>vertices = vertices plane_mesh, indices = [0, 0, 0, 0, 1, 2, 0, 1, 2]\<rparr> \<and>
   isMeshValid \<lparr>vertices = vertices plane_mesh, indices = [0, 1, 4]\<rparr> = False \<and>
   isMeshValid \<lparr>vertices = vertices plane_mesh, indices = [0, 1, 2, 3]\<rparr> = False"
  using isMeshValid_false_iff
      [of "\<lparr>vertices = vertices plane_mesh, indices = [0, 0, 0, 0, 1, 2, 0, 1, 2]\<rparr>"]
    isMeshValid_false_iff [of "\<lparr>vertices = vertices plane_mesh, indices = [0, 1, 4]\<rparr>"]
    isMeshValid_false_iff [of "\<lparr>vertices = vertices plane_mesh, indices = [0, 1, 2, 3]\<rparr>"]
  by (simp add: plane_mesh_def)

section \<open>Swapping two triangles of the index buffer\<close>

lemma three_neq:
  "(3 * (a::nat) = Suc (3 * b)) = False" "(Suc (3 * a) = 3 * b) = False"
  "(3 * (a::nat) = Suc (Suc (3 * b))) = False" "(Suc (Suc (3 * a)) = 3 * b) = False"
  "(Suc (3 * a) = Suc (Suc (3 * b))) = False" "(Suc (Suc (3 * a)) = Suc (3 * b)) = False"
  by presburger+

lemma swap_indices_Some:
  "a < length xs \<Longrightarrow> b < length xs \<Longrightarrow> swap_indices xs a b = Some (xs[a := xs ! b, b := xs ! a])"
  by (simp add: swap_indices_def)

lemma swap_triple:
  assumes "j \<le> i" and "3 * i + 2 < length xs"
  defines "ys \<equiv> xs[3 * j := xs ! (3 * i), 3 * i := xs ! (3 * j),
                   3 * j + 1 := xs ! (3 * i + 1), 3 * i + 1 := xs ! (3 * j + 1),
                   3 * j + 2 := xs ! (3 * i + 2), 3 * i + 2 := xs ! (3 * j + 2)]"
  shows "triangles ys = (triangles xs)[j := triangles xs ! i, i := triangles xs ! j]"
proof (rule nth_equalityI)
  show "length (triangles ys) = length ((triangles xs)[j := triangles xs ! i, i := triangles xs ! j])"
    by (simp add: length_triangles ys_def)
next
  fix k assume "k < length (triangles ys)"
  then have k: "k < length xs div 3" by (simp add: length_triangles ys_def)
  then have k3: "3 * k + 2 < length xs" by presburger
  have i: "i < length xs div 3" using assms(2) by presburger
  have j: "j < length xs div 3" using assms(1) i by simp
  have j3: "3 * j + 2 < length xs" using j by presburger
  have L: "triangles ys ! k = (ys ! (k * 3 + 0), ys ! (k * 3 + 1), ys ! (k * 3 + 2))"
    using k by (intro triangles_nth) (simp add: ys_def)
  have R: "(triangles xs)[j := triangles xs ! i, i := triangles xs ! j] ! k =
     (if k = i then triangles xs ! j else if k = j then triangles xs ! i else triangles xs ! k)"
    using i j k by (simp add: nth_list_update length_triangles)
  have T: "\<And>m. m < length xs div 3 \<Longrightarrow>
      triangles xs ! m = (xs ! (3 * m), xs ! (3 * m + 1), xs ! (3 * m + 2))"
    by (simp add: triangles_nth mult.commute)
  show "triangles ys ! k = (triangles xs)[j := triangles xs ! i, i := triangles xs ! j] ! k"
    unfolding L R using i j k k3 j3 assms(2)
    by (simp add: T ys_def nth_list_update three_neq mult.commute)
qed

lemma swap_three:
  assumes "j \<le> i" and "3 * i + 2 < length xs"
  obtains xs1 xs2 xs3 where
    "swap_indices xs (3 * j) (3 * i) = Some xs1"
    "swap_indices xs1 (3 * j + 1) (3 * i + 1) = Some xs2"
    "swap_indices xs2 (3 * j + 2) (3 * i + 2) = Some xs3"
    "length xs3 = length xs"
    "mset (triangles xs3) = mset (triangles xs)"
    "drop (3 * (length xs div 3)) xs3 = drop (3 * (length xs div 3)) xs"
proof -
  define xs1 where "xs1 = xs[3 * j := xs ! (3 * i), 3 * i := xs ! (3 * j)]"
  define xs2 where "xs2 = xs1[3 * j + 1 := xs1 ! (3 * i + 1), 3 * i + 1 := xs1 ! (3 * j + 1)]"
  define xs3 where "xs3 = xs2[3 * j + 2 := xs2 ! (3 * i + 2), 3 * i + 2 := xs2 ! (3 * j + 2)]"
  have j3: "3 * j + 2 < length xs" using assms by simp
  have i: "i < length xs div 3" using assms(2) by presburger
  have j: "j < length xs div 3" using assms(1) i by simp
  have m: "3 * i + 2 < 3 * (length xs div 3)" "3 * j + 2 < 3 * (length xs div 3)"
    using i j by simp_all
  have s1: "swap_indices xs (3 * j) (3 * i) = Some xs1"
    using assms(2) j3 by (simp add: swap_indices_Some xs1_def)
  have s2: "swap_indices xs1 (3 * j + 1) (3 * i + 1) = Some xs2"
    using assms(2) j3 by (simp add: swap_indices_Some xs1_def xs2_def)
  have s3: "swap_indices xs2 (3 * j + 2) (3 * i + 2) = Some xs3"
    using assms(2) j3 by (simp add: swap_indices_Some xs1_def xs2_def xs3_def)
  have e1: "xs1 ! (3 * i + 1) = xs ! (3 * i + 1)" "xs1 ! (3 * j + 1) = xs ! (3 * j + 1)"
    using assms(2) j3 by (simp_all add: xs1_def nth_list_update three_neq)
  have e2: "xs2 ! (3 * i + 2) = xs ! (3 * i + 2)" "xs2 ! (3 * j + 2) = xs ! (3 * j + 2)"
    using assms(2) j3 by (simp_all add: xs1_def xs2_def nth_list_update three_neq)
  have xs3: "xs3 = xs[3 * j := xs ! (3 * i), 3 * i := xs ! (3 * j),
                   3 * j + 1 := xs ! (3 * i + 1), 3 * i + 1 := xs ! (3 * j + 1),
                   3 * j + 2 := xs ! (3 * i + 2), 3 * i + 2 := xs ! (3 * j + 2)]"
    unfolding xs3_def e2 unfolding xs2_def e1 unfolding xs1_def ..
  have len: "length xs3 = length xs" by (simp add: xs3)
  have "triangles xs3 = (triangles xs)[j := triangles xs ! i, i := triangles xs ! j]"
    unfolding xs3 using assms by (rule swap_triple)
  then have ms: "mset (triangles xs3) = mset (triangles xs)"
    using i j by (simp add: mset_swap length_triangles)
  have dr: "drop (3 * (length xs div 3)) xs3 = drop (3 * (length xs div 3)) xs"
    unfolding xs3 using m by simp
  from s1 s2 s3 len ms dr show ?thesis by (rule that)
qed

section \<open>The shuffle\<close>

lemma unat_triple_index:
  fixes w :: size_t
  assumes "3 * unat w + 2 < 2 ^ 64"
  shows "unat (3 * w + 0) = 3 * unat w" "unat (3 * w + 1) = 3 * unat w + 1"
    "unat (3 * w + 2) = 3 * unat w + 2"
proof -
  have m: "unat (3 * w) = 3 * unat w"
    using assms by (simp add: unat_word_ariths)
  show "unat (3 * w + 0) = 3 * unat w" using m by simp
  show "unat (3 * w + 1) = 3 * unat w + 1"
    using assms m by (simp add: unat_word_ariths)
  show "unat (3 * w + 2) = 3 * unat w + 2"
    using assms m by (simp add: unat_word_ariths)
qed

lemma optRandomShuffle_loop_permutes:
  "unat i < length xs div 3 \<Longrightarrow> length xs < 2 ^ 64 \<Longrightarrow>
     \<exists>ys. optRandomShuffle_loop i rng xs = Some ys \<and> length ys = length xs \<and>
       mset (triangles ys) = mset (triangles xs) \<and>
       drop (3 * (length xs div 3)) ys = drop (3 * (length xs div 3)) xs"
proof (induction i rng xs rule: optRandomShuffle_loop.induct)
  case (1 i rng xs)
  show ?case
  proof (cases "0 < i")
    case False
    then show ?thesis by (simp add: optRandomShuffle_loop.simps [of i rng xs])
  next
    case True
    define j :: size_t where "j = ucast rng mod (i + 1)"
    have i3: "3 * unat i + 2 < length xs" using 1(2) by presburger
    then have ib: "3 * unat i + 2 < 2 ^ 64" using 1(3) by simp
    then have u1: "unat (i + 1) = unat i + 1"
      by (simp add: unat_word_ariths)
    then have i1: "i + 1 \<noteq> 0" by (metis Suc_eq_plus1 nat.simps(3) unat_0)
    have "unat j = unat (ucast rng :: size_t) mod (unat i + 1)"
      by (simp add: j_def unat_mod u1)
    then have ji: "unat j \<le> unat i"
      by (metis Suc_eq_plus1 less_Suc_eq_le mod_less_divisor zero_less_Suc)
    then have jb: "3 * unat j + 2 < 2 ^ 64" using ib by simp
    obtain xs1 xs2 xs3 where
      s1: "swap_indices xs (3 * unat j) (3 * unat i) = Some xs1" and
      s2: "swap_indices xs1 (3 * unat j + 1) (3 * unat i + 1) = Some xs2" and
      s3: "swap_indices xs2 (3 * unat j + 2) (3 * unat i + 2) = Some xs3" and
      len: "length xs3 = length xs" and
      ms: "mset (triangles xs3) = mset (triangles xs)" and
      dr: "drop (3 * (length xs div 3)) xs3 = drop (3 * (length xs div 3)) xs"
      using swap_three [OF ji i3] by blast
    have w1: "swap_indices xs (unat (3 * j + 0)) (unat (3 * i + 0)) = Some xs1"
      using s1 by (simp only: unat_triple_index [OF jb] unat_triple_index [OF ib])
    have w2: "swap_indices xs1 (unat (3 * j + 1)) (unat (3 * i + 1)) = Some xs2"
      using s2 by (simp only: unat_triple_index [OF jb] unat_triple_index [OF ib])
    have w3: "swap_indices xs2 (unat (3 * j + 2)) (unat (3 * i + 2)) = Some xs3"
      using s3 by (simp only: unat_triple_index [OF jb] unat_triple_index [OF ib])
    have step: "optRandomShuffle_loop i rng xs =
        optRandomShuffle_loop (i - 1) (rng * 1664525 + 1013904223) xs3"
      using True i1 w1 w2 w3
      by (subst optRandomShuffle_loop.simps) (simp add: Let_def j_def)
    have "unat (i - 1) < unat i"
      using True by (metis unat_minus_one word_gt_0 diff_less unat_gt_0 zero_less_one)
    then have p: "unat (i - 1) < length xs3 div 3" using 1(2) len by simp
    have q: "length xs3 < 2 ^ 64" using 1(3) len by simp
    from 1(1) [OF True i1 j_def w1 w2 w3 p q] obtain ys where
      "optRandomShuffle_loop (i - 1) (rng * 1664525 + 1013904223) xs3 = Some ys"
      "length ys = length xs3" "mset (triangles ys) = mset (triangles xs3)"
      "drop (3 * (length xs3 div 3)) ys = drop (3 * (length xs3 div 3)) xs3"
      by blast
    then show ?thesis using step len ms dr by simp
  qed
qed

text \<open>Without a triangle the counter starts at \<open>0 - 1\<close>, the largest \<open>size_t\<close>; the loop is
  entered and \<open>i + 1\<close> is the zero divisor.\<close>

lemma optRandomShuffle_loop_empty:
  "optRandomShuffle_loop (0 - 1) rng xs = None"
proof -
  have "(0 :: size_t) < 0 - 1" by (simp add: word_gt_0)
  then show ?thesis by (subst optRandomShuffle_loop.simps) simp
qed


text \<open>
  Claim C10. On a mesh with at least one triangle (and an index buffer whose size fits
  \<open>size_t\<close>, as every buffer's does) \<open>optRandomShuffle\<close> returns, changing the index buffer
  only: its length is kept, its whole consecutive triples are the same multiset as before,
  the indices after the last whole triple stay where they are, and so \<open>hashMesh\<close> gives the
  same result. On a mesh without a triangle the function has no defined result: the counter
  starts at \<open>triangle_count - 1\<close>, which wraps around in \<open>size_t\<close>.
\<close>

theorem optRandomShuffle_preserves_triangles:
  assumes "length (indices mesh) < 2 ^ 64"
  shows "(3 \<le> length (indices mesh) \<longrightarrow>
      (\<exists>ys. optRandomShuffle mesh = Some (mesh\<lparr>indices := ys\<rparr>) \<and>
         length ys = length (indices mesh) \<and>
         mset (triangles ys) = mset (triangles (indices mesh)) \<and>
         drop (3 * (length ys div 3)) ys = drop (3 * (length ys div 3)) (indices mesh) \<and>
         hashMesh (mesh\<lparr>indices := ys\<rparr>) = hashMesh mesh)) \<and>
    (length (indices mesh) < 3 \<longrightarrow> optRandomShuffle mesh = None)"
proof (intro conjI impI)
  assume ge: "3 \<le> length (indices mesh)"
  define n where "n = length (indices mesh) div 3"
  have n: "0 < n" "n < 2 ^ 64" using ge assms by (simp_all add: n_def)
  have un: "unat (of_nat n :: size_t) = n"
    using n by (simp add: unat_of_nat)
  then have "(of_nat n :: size_t) \<noteq> 0"
    using n by (metis less_numeral_extra(3) unat_0)
  then have "unat (of_nat n - 1 :: size_t) = n - 1"
    using un by (simp add: unat_minus_one)
  then have "unat (of_nat n - 1 :: size_t) < length (indices mesh) div 3"
    using n by (simp add: n_def)
  from optRandomShuffle_loop_permutes [OF this assms, of 0] obtain ys where
    ys: "optRandomShuffle_loop (of_nat n - 1) 0 (indices mesh) = Some ys"
      "length ys = length (indices mesh)"
      "mset (triangles ys) = mset (triangles (indices mesh))"
      "drop (3 * (length (indices mesh) div 3)) ys =
       drop (3 * (length (indices mesh) div 3)) (indices mesh)"
    by blast
  have "hashMesh (mesh\<lparr>indices := ys\<rparr>) = hashMesh mesh"
    using ys(3) by (intro hashMesh_mset) simp_all
  then show "\<exists>ys. optRandomShuffle mesh = Some (mesh\<lparr>indices := ys\<rparr>) \<and>
         length ys = length (indices mesh) \<and>
         mset (triangles ys) = mset (triangles (indices mesh)) \<and>
         drop (3 * (length ys div 3)) ys = drop (3 * (length ys div 3)) (indices mesh) \<and>
         hashMesh (mesh\<lparr>indices := ys\<rparr>) = hashMesh mesh"
    using ys by (intro exI [of _ ys]) (simp add: optRandomShuffle_def n_def)
next
  assume "length (indices mesh) < 3"
  then have "length (indices mesh) div 3 = 0" by simp
  then show "optRandomShuffle mesh = None"
    using optRandomShuffle_loop_empty [of 0 "indices mesh"]
    by (simp add: optRandomShuffle_def)
qed

lemma optRandomShuffle_loop_zero: "optRandomShuffle_loop 0 rng xs = Some xs"
  by (subst optRandomShuffle_loop.simps) simp

lemma optRandomShuffle_plane:
  "optRandomShuffle plane_mesh = Some (plane_mesh\<lparr>indices := [2, 1, 3, 0, 1, 2]\<rparr>)"
proof -
  have "optRandomShuffle_loop 1 0 [0, 1, 2, 2, 1, 3] = Some [2, 1, 3, 0, 1, 2]"
    by (subst optRandomShuffle_loop.simps)
      (simp add: swap_indices_def optRandomShuffle_loop_zero)
  then show ?thesis
    by (simp add: optRandomShuffle_def plane_mesh_def)
qed

theorem optRandomShuffle_preserves_triangles_witness:
  "optRandomShuffle plane_mesh = Some (plane_mesh\<lparr>indices := [2, 1, 3, 0, 1, 2]\<rparr>) \<and>
   mset (triangles [2, 1, 3, 0, 1, 2]) = mset (triangles (indices plane_mesh)) \<and>
   hashMesh (plane_mesh\<lparr>indices := [2, 1, 3, 0, 1, 2]\<rparr>) = hashMesh plane_mesh \<and>
   optRandomShuffle \<lparr>vertices = vertices plane_mesh, indices = []\<rparr> = None"
proof -
  have l: "length (indices plane_mesh) < 2 ^ 64" "3 \<le> length (indices plane_mesh)"
    by (simp_all add: plane_mesh_def)
  have e: "length (indices \<lparr>vertices = vertices plane_mesh, indices = []\<rparr>) < 2 ^ 64"
    "length (indices \<lparr>vertices = vertices plane_mesh, indices = []\<rparr>) < 3"
    by simp_all
  from optRandomShuffle_preserves_triangles [OF l(1)] l(2) obtain ys where
    ys: "optRandomShuffle plane_mesh = Some (plane_mesh\<lparr>indices := ys\<rparr>)"
      "mset (triangles ys) = mset (triangles (indices plane_mesh))"
      "hashMesh (plane_mesh\<lparr>indices := ys\<rparr>) = hashMesh plane_mesh"
    by blast
  have "indices (plane_mesh\<lparr>indices := ys\<rparr>) = indices (plane_mesh\<lparr>indices := [2, 1, 3, 0, 1, 2]\<rparr>)"
    using ys(1) optRandomShuffle_plane by simp
  then have "ys = [2, 1, 3, 0, 1, 2]" by simp
  then show ?thesis
    using ys optRandomShuffle_preserves_triangles [OF e(1)] e(2) by blast
qed

section \<open>The benchmark harness\<close>



text \<open>A transform called on a reference does change the object referred to: called on the
  caller's mesh itself, \<open>optRandomShuffle\<close> would reorder the caller's index buffer.\<close>

lemma by_reference_writes:
  "by_reference f r s = Some s' \<Longrightarrow> r < length s \<and> f (s ! r) = Some (s' ! r)"
  by (auto simp: by_reference_def split: if_splits option.splits)


lemma shuffle_on_original:
  "by_reference optRandomShuffle 0 [plane_mesh] =
     Some [plane_mesh\<lparr>indices := [2, 1, 3, 0, 1, 2]\<rparr>]"
  by (simp add: by_reference_def optRandomShuffle_plane)






end
